theory Spec2Isabelle
  imports Main
begin

section \<open>The recursive lock of base/lock.cc and its AutoUnlock helper\<close>

text \<open>
  The file \<^verbatim>\<open>lock.cc\<close> implements \<^verbatim>\<open>Lock\<close> (the RecursiveLock of the
  specification) on top of a platform mutex \<^verbatim>\<open>lock_\<close>, and \<^verbatim>\<open>AutoUnlock\<close>
  (the ScopedFullRelease).  Every method is embedded as a function that takes the
  build configuration (\<open>ndebug\<close> is true when \<^verbatim>\<open>NDEBUG\<close> is defined, the
  non-instrumented build), the calling thread, and the object's state, and returns
  the new state or a fault.

  A call that has to wait for the mutex takes one more argument, \<open>others\<close>: what
  the other threads do to the object while the caller waits.
\<close>

type_synonym tid = nat

subsection \<open>The platform mutex\<close>

text \<open>
  Modelled from the spec: the class \<^verbatim>\<open>LockImpl\<close> behind the member
  \<^verbatim>\<open>lock_\<close> (\<^verbatim>\<open>base/lock_impl.h\<close>) is missing from the sources.  The
  specification gives its contract: a blocking acquire \<^verbatim>\<open>Lock()\<close>, a release
  \<^verbatim>\<open>Unlock()\<close> whose precondition is that the caller holds the mutex, and a
  non-blocking attempt \<^verbatim>\<open>Try()\<close> that returns success or failure.  For a
  thread that already holds the mutex the specification requires that a nested acquire
  "must succeed immediately", and \<^verbatim>\<open>lock.cc\<close> relies on it: \<^verbatim>\<open>Acquire\<close>
  re-enters \<^verbatim>\<open>lock_\<close> at every depth above 1,
  \<^verbatim>\<open>GetCurrentThreadRecursionCount\<close> re-enters it while the caller holds it, and
  \<^verbatim>\<open>recursion_count_shadow_\<close> shadows the nesting count of the primitive.  So
  the mutex is either unowned, or owned by one thread together with the number of
  its nested holds: \<open>Owned t n\<close> is held \<open>Suc n\<close> times by \<open>t\<close>.
\<close>

datatype LockImpl = Unowned | Owned tid nat

text \<open>Modelled from the spec: \<^verbatim>\<open>LockImpl::Try\<close>, the non-blocking attempt.\<close>

definition LockImpl_Try :: "tid \<Rightarrow> LockImpl \<Rightarrow> bool \<times> LockImpl" where
  "LockImpl_Try t m =
     (case m of
        Unowned \<Rightarrow> (True, Owned t 0)
      | Owned u n \<Rightarrow> if u = t then (True, Owned t (Suc n)) else (False, m))"

text \<open>
  Modelled from the spec: \<^verbatim>\<open>LockImpl::Lock\<close>, the blocking acquire, at one
  instant: \<open>Some\<close> the mutex as taken, or \<open>None\<close> when another thread owns it
  and the caller has to wait.
\<close>

definition LockImpl_Lock :: "tid \<Rightarrow> LockImpl \<Rightarrow> LockImpl option" where
  "LockImpl_Lock t m =
     (case m of
        Unowned \<Rightarrow> Some (Owned t 0)
      | Owned u n \<Rightarrow> if u = t then Some (Owned t (Suc n)) else None)"

text \<open>
  Modelled from the spec: \<^verbatim>\<open>LockImpl::Unlock\<close>; \<open>None\<close> when the caller
  does not hold the mutex, which breaks the precondition of the primitive.
\<close>

definition LockImpl_Unlock :: "tid \<Rightarrow> LockImpl \<Rightarrow> LockImpl option" where
  "LockImpl_Unlock t m =
     (case m of
        Unowned \<Rightarrow> None
      | Owned u n \<Rightarrow>
          if u = t then Some (case n of 0 \<Rightarrow> Unowned | Suc k \<Rightarrow> Owned t k) else None)"

subsection \<open>Faults\<close>

text \<open>
  A call ends in a fault when it cannot return: \<open>Waits\<close> when the thread is
  still waiting inside \<^verbatim>\<open>lock_.Lock()\<close>, \<open>DCheck_failed\<close> when a
  \<^verbatim>\<open>DCHECK\<close> fires, \<open>Unlock_unheld\<close> when \<^verbatim>\<open>lock_.Unlock()\<close> is called by
  a thread that does not hold the mutex.
\<close>

datatype fault = Waits | DCheck_failed | Unlock_unheld

text \<open>
  Modelled from the spec: the macro \<^verbatim>\<open>DCHECK\<close> of \<^verbatim>\<open>base/logging.h\<close> is
  missing from the sources.  The specification describes it as a fatal-assertion hook
  that is present only in instrumented builds.
\<close>

definition DCHECK :: "bool \<Rightarrow> bool \<Rightarrow> fault + unit" where
  "DCHECK ndebug condition = (if \<not> ndebug \<and> \<not> condition then Inl DCheck_failed else Inr ())"

subsection \<open>The Lock object\<close>

text \<open>
  Modelled from the spec: the declaration of the class (\<^verbatim>\<open>base/lock.h\<close>) is
  missing from the sources.  The members are those \<^verbatim>\<open>lock.cc\<close> uses, under
  the source's names without the trailing underscore.  The data model of the
  specification makes the recursion count a signed integer and the two debug counters
  lifetime counts; they are embedded as \<open>int\<close>, and so are the \<^verbatim>\<open>int32\<close>
  and \<^verbatim>\<open>int\<close> locals that receive them.  A counter would have to pass
  \<open>2^31\<close> to overflow, which is undefined behaviour in C++ and outside this
  embedding.  The three debug fields exist only when \<^verbatim>\<open>NDEBUG\<close> is not
  defined; with \<open>ndebug\<close> the functions below never read or write them.
\<close>

record Lock =
  lock :: LockImpl
  recursion_count_shadow :: int
  recursion_used :: bool
  acquisition_count :: int
  contention_count :: int

text \<open>
  \<^verbatim>\<open>lock_.Lock()\<close> on the object.  The mutex is taken at once when the caller
  can have it.  Otherwise the caller waits; \<open>others\<close> is what the other threads do
  to the object in the meantime, and the caller takes the mutex in the state they
  leave, if they leave it available.
\<close>

definition lock_Lock :: "tid \<Rightarrow> (Lock \<Rightarrow> Lock) \<Rightarrow> Lock \<Rightarrow> fault + Lock" where
  "lock_Lock t others s =
     (case LockImpl_Lock t (lock s) of
        Some m \<Rightarrow> Inr (s\<lparr>lock := m\<rparr>)
      | None \<Rightarrow>
          (case LockImpl_Lock t (lock (others s)) of
             Some m \<Rightarrow> Inr ((others s)\<lparr>lock := m\<rparr>)
           | None \<Rightarrow> Inl Waits))"

definition lock_Unlock :: "tid \<Rightarrow> Lock \<Rightarrow> fault + Lock" where
  "lock_Unlock t s =
     (case LockImpl_Unlock t (lock s) of
        Some m \<Rightarrow> Inr (s\<lparr>lock := m\<rparr>)
      | None \<Rightarrow> Inl Unlock_unheld)"

text \<open>
  \<^verbatim>\<open>Lock::Lock()\<close>: \<open>mem\<close> is the memory the object is built in; the
  non-instrumented build has no debug fields to initialise.
\<close>

definition Lock_ctor :: "bool \<Rightarrow> Lock \<Rightarrow> Lock" where
  "Lock_ctor ndebug mem =
     (let s = mem\<lparr>lock := Unowned, recursion_count_shadow := 0\<rparr>
      in if ndebug then s
         else s\<lparr>recursion_used := False, acquisition_count := 0, contention_count := 0\<rparr>)"

text \<open>\<^verbatim>\<open>Lock::~Lock()\<close>: the object is gone afterwards, so only a fault is left to return.\<close>

definition Lock_dtor :: "bool \<Rightarrow> tid \<Rightarrow> (Lock \<Rightarrow> Lock) \<Rightarrow> Lock \<Rightarrow> fault + unit" where
  "Lock_dtor ndebug t others s =
     (if ndebug then Inr ()
      else
        (case lock_Lock t others s of
           Inl e \<Rightarrow> Inl e
         | Inr s1 \<Rightarrow>
             (let final_recursion_count = recursion_count_shadow s1
              in (case lock_Unlock t s1 of
                    Inl e \<Rightarrow> Inl e
                  | Inr s2 \<Rightarrow> DCHECK ndebug (0 = final_recursion_count)))))"

text \<open>\<^verbatim>\<open>Lock::Acquire()\<close>.\<close>

definition Acquire :: "bool \<Rightarrow> tid \<Rightarrow> (Lock \<Rightarrow> Lock) \<Rightarrow> Lock \<Rightarrow> fault + Lock" where
  "Acquire ndebug t others s =
     (if ndebug then
        (case lock_Lock t others s of
           Inl e \<Rightarrow> Inl e
         | Inr s1 \<Rightarrow> Inr (s1\<lparr>recursion_count_shadow := recursion_count_shadow s1 + 1\<rparr>))
      else
        (case (case LockImpl_Try t (lock s) of
                 (True, m) \<Rightarrow> Inr (s\<lparr>lock := m\<rparr>)
               | (False, _) \<Rightarrow>
                   \<comment> \<open>We have contention.\<close>
                   (case lock_Lock t others s of
                      Inl e \<Rightarrow> Inl e
                    | Inr s0 \<Rightarrow> Inr (s0\<lparr>contention_count := contention_count s0 + 1\<rparr>)))
         of
           Inl e \<Rightarrow> Inl e
         | Inr s1 \<Rightarrow>
             (let s2 = s1\<lparr>recursion_count_shadow := recursion_count_shadow s1 + 1\<rparr>
              in Inr (if 1 = recursion_count_shadow s2
                      then s2\<lparr>acquisition_count := acquisition_count s2 + 1\<rparr>
                      else if 2 = recursion_count_shadow s2 \<and> \<not> recursion_used s2
                      then s2\<lparr>recursion_used := True\<rparr>
                      else s2))))"

text \<open>\<^verbatim>\<open>Lock::Release()\<close>.\<close>

definition Release :: "bool \<Rightarrow> tid \<Rightarrow> Lock \<Rightarrow> fault + Lock" where
  "Release ndebug t s =
     (let s1 = s\<lparr>recursion_count_shadow := recursion_count_shadow s - 1\<rparr>
      in (case DCHECK ndebug (0 \<le> recursion_count_shadow s1) of
            Inl e \<Rightarrow> Inl e
          | Inr _ \<Rightarrow> lock_Unlock t s1))"

text \<open>\<^verbatim>\<open>Lock::Try()\<close>: the returned flag and the state.\<close>

definition Try :: "bool \<Rightarrow> tid \<Rightarrow> Lock \<Rightarrow> bool \<times> Lock" where
  "Try ndebug t s =
     (case LockImpl_Try t (lock s) of
        (True, m) \<Rightarrow>
          (let s1 = s\<lparr>lock := m\<rparr>;
               s2 = s1\<lparr>recursion_count_shadow := recursion_count_shadow s1 + 1\<rparr>
           in (True,
               if ndebug then s2
               else if 1 = recursion_count_shadow s2
               then s2\<lparr>acquisition_count := acquisition_count s2 + 1\<rparr>
               else if 2 = recursion_count_shadow s2 \<and> \<not> recursion_used s2
               then s2\<lparr>recursion_used := True\<rparr>
               else s2))
      | (False, _) \<Rightarrow> (False, s))"

text \<open>\<^verbatim>\<open>Lock::GetCurrentThreadRecursionCount()\<close>: the returned count and the state.\<close>

definition GetCurrentThreadRecursionCount ::
    "bool \<Rightarrow> tid \<Rightarrow> (Lock \<Rightarrow> Lock) \<Rightarrow> Lock \<Rightarrow> fault + (int \<times> Lock)" where
  "GetCurrentThreadRecursionCount ndebug t others s =
     (if ndebug then Inr (recursion_count_shadow s, s)
      else
        (case lock_Lock t others s of
           Inl e \<Rightarrow> Inl e
         | Inr s1 \<Rightarrow>
             (let temp = recursion_count_shadow s1
              in (case lock_Unlock t s1 of
                    Inl e \<Rightarrow> Inl e
                  | Inr s2 \<Rightarrow>
                      (case DCHECK ndebug (temp \<ge> 1) of
                         Inl e \<Rightarrow> Inl e
                       | Inr _ \<Rightarrow> Inr (recursion_count_shadow s2, s2))))))"

subsection \<open>AutoUnlock\<close>

text \<open>
  The member \<^verbatim>\<open>lock_\<close> of \<^verbatim>\<open>AutoUnlock\<close> points to the lock; here the lock's
  state is passed along with the helper's own field.
\<close>

record AutoUnlock =
  release_count :: int

text \<open>
  The loop of the constructor,
  \<^verbatim>\<open>while (count-- > 0) { release_count_++; lock_->Release(); }\<close>.
\<close>

function AutoUnlock_ctor_loop ::
    "bool \<Rightarrow> tid \<Rightarrow> int \<Rightarrow> AutoUnlock \<Rightarrow> Lock \<Rightarrow> fault + (AutoUnlock \<times> Lock)" where
  "AutoUnlock_ctor_loop ndebug t count a s =
     (if count > 0 then
        (case Release ndebug t s of
           Inl e \<Rightarrow> Inl e
         | Inr s' \<Rightarrow>
             AutoUnlock_ctor_loop ndebug t (count - 1)
               (a\<lparr>release_count := release_count a + 1\<rparr>) s')
      else Inr (a, s))"
  by pat_completeness auto
termination
  by (relation "measure (\<lambda>(ndebug, t, count, a, s). nat count)") auto

declare AutoUnlock_ctor_loop.simps [simp del]

text \<open>\<^verbatim>\<open>AutoUnlock::AutoUnlock(Lock& lock)\<close>.\<close>

definition AutoUnlock_ctor ::
    "bool \<Rightarrow> tid \<Rightarrow> (Lock \<Rightarrow> Lock) \<Rightarrow> Lock \<Rightarrow> fault + (AutoUnlock \<times> Lock)" where
  "AutoUnlock_ctor ndebug t others s =
     (case GetCurrentThreadRecursionCount ndebug t others s of
        Inl e \<Rightarrow> Inl e
      | Inr (count, s1) \<Rightarrow>
          (case DCHECK ndebug (count > 0) of
             Inl e \<Rightarrow> Inl e
           | Inr _ \<Rightarrow> AutoUnlock_ctor_loop ndebug t count \<lparr>release_count = 0\<rparr> s1))"

text \<open>
  The loop of the destructor, \<^verbatim>\<open>while (release_count_-- > 0) lock_->Acquire();\<close>.
  The test decrements the field also when it fails and ends the loop; the helper
  does not outlive the loop, so that last value is read by nothing and the loop
  returns the lock alone.
\<close>

function AutoUnlock_dtor_loop ::
    "bool \<Rightarrow> tid \<Rightarrow> (Lock \<Rightarrow> Lock) \<Rightarrow> AutoUnlock \<Rightarrow> Lock \<Rightarrow> fault + Lock" where
  "AutoUnlock_dtor_loop ndebug t others a s =
     (if release_count a > 0 then
        (case Acquire ndebug t others s of
           Inl e \<Rightarrow> Inl e
         | Inr s' \<Rightarrow>
             AutoUnlock_dtor_loop ndebug t others
               (a\<lparr>release_count := release_count a - 1\<rparr>) s')
      else Inr s)"
  by pat_completeness auto
termination
  by (relation "measure (\<lambda>(ndebug, t, others, a, s). nat (release_count a))") auto

declare AutoUnlock_dtor_loop.simps [simp del]

text \<open>\<^verbatim>\<open>AutoUnlock::~AutoUnlock()\<close>.\<close>

definition AutoUnlock_dtor ::
    "bool \<Rightarrow> tid \<Rightarrow> (Lock \<Rightarrow> Lock) \<Rightarrow> AutoUnlock \<Rightarrow> Lock \<Rightarrow> fault + Lock" where
  "AutoUnlock_dtor ndebug t others a s =
     (case DCHECK ndebug (release_count a \<ge> 0) of
        Inl e \<Rightarrow> Inl e
      | Inr _ \<Rightarrow> AutoUnlock_dtor_loop ndebug t others a s)"

subsection \<open>Sequences of calls\<close>

text \<open>One call after the other, \<open>n\<close> times, stopping at the first fault.\<close>

fun repeat_call :: "nat \<Rightarrow> ('s \<Rightarrow> fault + 's) \<Rightarrow> 's \<Rightarrow> fault + 's" where
  "repeat_call 0 f s = Inr s"
| "repeat_call (Suc n) f s = (case f s of Inl e \<Rightarrow> Inl e | Inr s' \<Rightarrow> repeat_call n f s')"

subsection \<open>The bookkeeping of an acquisition, in the words of the specification\<close>

text \<open>
  \<open>acquire_bookkeeping base s'\<close> says of the state \<open>base\<close> in which the mutex was
  obtained and of the state \<open>s'\<close> in which the call returns: the depth went up by 1,
  \<^verbatim>\<open>acquisition_count\<close> went up by 1 if and only if the new depth is 1, and
  \<^verbatim>\<open>recursion_used\<close> was set if and only if the new depth is 2 and it was false.
\<close>

definition acquire_bookkeeping :: "Lock \<Rightarrow> Lock \<Rightarrow> bool" where
  "acquire_bookkeeping base s' \<longleftrightarrow>
     recursion_count_shadow s' = recursion_count_shadow base + 1 \<and>
     acquisition_count s' =
       (if recursion_count_shadow s' = 1 then acquisition_count base + 1
        else acquisition_count base) \<and>
     recursion_used s' =
       (if recursion_count_shadow s' = 2 \<and> \<not> recursion_used base then True
        else recursion_used base)"

subsection \<open>The lock held at a depth\<close>

text \<open>
  \<open>held_at t d s\<close>: in the state \<open>s\<close> thread \<open>t\<close> holds the lock at depth
  \<open>d\<close>, that is, the shadow count is \<open>d\<close> and the mutex is held \<open>d\<close> times
  by \<open>t\<close>.  At depth 0 no thread holds the lock and the mutex is unowned.
\<close>

definition held_at :: "tid \<Rightarrow> nat \<Rightarrow> Lock \<Rightarrow> bool" where
  "held_at t d s \<longleftrightarrow>
     recursion_count_shadow s = int d \<and>
     lock s = (case d of 0 \<Rightarrow> Unowned | Suc n \<Rightarrow> Owned t n)"

subsection \<open>Histories of calls\<close>

text \<open>
  A history is a list of calls, each by a thread, in the order in which they take
  effect on the object.  A call of \<^verbatim>\<open>Acquire\<close> that gets the mutex at once is
  \<open>Op_Acquire\<close>.  A call of \<^verbatim>\<open>Acquire\<close> that found the mutex owned by another
  thread and waited takes effect when the mutex is handed to it: that is
  \<open>Op_Acquire_after_wait\<close>, run in the state \<open>s\<close> of the hand-over, as
  \<^verbatim>\<open>Acquire\<close> entered while another thread (\<open>Suc t\<close> stands for it) owned the
  mutex, the other threads leaving \<open>s\<close>.  A call that cannot return in the current
  state ends the history.
\<close>

datatype op = Op_Acquire | Op_Acquire_after_wait | Op_Try | Op_Release

fun exec :: "bool \<Rightarrow> tid \<times> op \<Rightarrow> Lock \<Rightarrow> fault + Lock" where
  "exec ndebug (t, Op_Acquire) s = Acquire ndebug t (\<lambda>x. x) s"
| "exec ndebug (t, Op_Acquire_after_wait) s =
     Acquire ndebug t (\<lambda>x. s) (s\<lparr>lock := Owned (Suc t) 0\<rparr>)"
| "exec ndebug (t, Op_Try) s = Inr (snd (Try ndebug t s))"
| "exec ndebug (t, Op_Release) s = Release ndebug t s"

text \<open>The states a history goes through, the first one included.\<close>

fun states :: "bool \<Rightarrow> (tid \<times> op) list \<Rightarrow> Lock \<Rightarrow> Lock list" where
  "states ndebug [] s = [s]"
| "states ndebug (e # es) s =
     s # (case exec ndebug e s of Inl _ \<Rightarrow> [] | Inr s' \<Rightarrow> states ndebug es s')"

section \<open>Properties\<close>

subsection \<open>The platform mutex inside the lock\<close>

lemma Try_fails_Lock_None:
  "LockImpl_Try t m = (False, m') \<Longrightarrow> LockImpl_Lock t m = None"
  by (cases m) (simp_all add: LockImpl_Try_def LockImpl_Lock_def split: if_splits)

lemma lock_Lock_now:
  "LockImpl_Lock t (lock s) = Some m \<Longrightarrow> lock_Lock t others s = Inr (s\<lparr>lock := m\<rparr>)"
  by (simp add: lock_Lock_def)

lemma lock_Lock_later:
  "LockImpl_Lock t (lock s) = None \<Longrightarrow> LockImpl_Lock t (lock (others s)) = Some m \<Longrightarrow>
   lock_Lock t others s = Inr ((others s)\<lparr>lock := m\<rparr>)"
  by (simp add: lock_Lock_def)

lemma lock_Lock_waits:
  "LockImpl_Lock t (lock s) = None \<Longrightarrow> LockImpl_Lock t (lock (others s)) = None \<Longrightarrow>
   lock_Lock t others s = Inl Waits"
  by (simp add: lock_Lock_def)

subsection \<open>Acquire\<close>

lemma Acquire_debug_try_ok:
  "LockImpl_Try t (lock s) = (True, m) \<Longrightarrow>
   \<exists>s'. Acquire False t others s = Inr s' \<and> lock s' = m \<and>
        contention_count s' = contention_count s \<and> acquire_bookkeeping s s'"
  by (simp add: Acquire_def acquire_bookkeeping_def Let_def)

lemma Acquire_debug_try_fails_waits:
  assumes "LockImpl_Try t (lock s) = (False, m0)"
    and "LockImpl_Lock t (lock (others s)) = None"
  shows "Acquire False t others s = Inl Waits"
proof -
  have "lock_Lock t others s = Inl Waits"
    using assms by (simp add: lock_Lock_waits Try_fails_Lock_None)
  with assms(1) show ?thesis by (simp add: Acquire_def)
qed

lemma Acquire_debug_try_fails_granted:
  assumes "LockImpl_Try t (lock s) = (False, m0)"
    and "LockImpl_Lock t (lock (others s)) = Some m"
  shows "\<exists>s'. Acquire False t others s = Inr s' \<and> lock s' = m \<and>
             contention_count s' = contention_count (others s) + 1 \<and>
             acquire_bookkeeping (others s) s'"
proof -
  have "lock_Lock t others s = Inr ((others s)\<lparr>lock := m\<rparr>)"
    using assms by (simp add: lock_Lock_later Try_fails_Lock_None)
  with assms(1) show ?thesis
    by (simp add: Acquire_def acquire_bookkeeping_def Let_def)
qed

lemma Acquire_ndebug_now:
  "LockImpl_Lock t (lock s) = Some m \<Longrightarrow>
   Acquire True t others s =
     Inr (s\<lparr>lock := m, recursion_count_shadow := recursion_count_shadow s + 1\<rparr>)"
  by (simp add: Acquire_def lock_Lock_now)

lemma Acquire_ndebug_later:
  "LockImpl_Lock t (lock s) = None \<Longrightarrow> LockImpl_Lock t (lock (others s)) = Some m \<Longrightarrow>
   Acquire True t others s =
     Inr ((others s)\<lparr>lock := m,
            recursion_count_shadow := recursion_count_shadow (others s) + 1\<rparr>)"
  by (simp add: Acquire_def lock_Lock_later)

lemma Acquire_ndebug_waits:
  "LockImpl_Lock t (lock s) = None \<Longrightarrow> LockImpl_Lock t (lock (others s)) = None \<Longrightarrow>
   Acquire True t others s = Inl Waits"
  by (simp add: Acquire_def lock_Lock_waits)

text \<open>
  Claim C1.  In an instrumented build \<^verbatim>\<open>Acquire\<close> first tries the mutex without
  blocking.  When the attempt succeeds the call returns with \<^verbatim>\<open>contention_count\<close>
  as it was.  When it fails the call does the blocking acquire: it waits while the
  other threads run, and once it is given the mutex it returns with
  \<^verbatim>\<open>contention_count\<close> exactly 1 above its value in the state in which the mutex
  was given.  Either way the depth goes up by 1, \<^verbatim>\<open>acquisition_count\<close> goes up
  by 1 if and only if the new depth is 1, and \<^verbatim>\<open>recursion_used\<close> is set if and
  only if the new depth is 2 and it was false.  In a non-instrumented build
  \<^verbatim>\<open>Acquire\<close> does the blocking acquire and adds 1 to the depth, and every other
  field is as it was in the state in which the mutex was given.
\<close>

theorem Acquire_contract:
  "(case LockImpl_Try t (lock s) of
      (True, m) \<Rightarrow>
        (\<exists>s'. Acquire False t others s = Inr s' \<and> lock s' = m \<and>
              contention_count s' = contention_count s \<and> acquire_bookkeeping s s')
    | (False, _) \<Rightarrow>
        (case LockImpl_Lock t (lock (others s)) of
           None \<Rightarrow> Acquire False t others s = Inl Waits
         | Some m \<Rightarrow>
             (\<exists>s'. Acquire False t others s = Inr s' \<and> lock s' = m \<and>
                   contention_count s' = contention_count (others s) + 1 \<and>
                   acquire_bookkeeping (others s) s'))) \<and>
   (let base = (if LockImpl_Lock t (lock s) = None then others s else s)
    in case LockImpl_Lock t (lock base) of
         None \<Rightarrow> Acquire True t others s = Inl Waits
       | Some m \<Rightarrow>
           Acquire True t others s =
             Inr (base\<lparr>lock := m,
                    recursion_count_shadow := recursion_count_shadow base + 1\<rparr>))"
proof (rule conjI)
  show "case LockImpl_Try t (lock s) of
          (True, m) \<Rightarrow>
            (\<exists>s'. Acquire False t others s = Inr s' \<and> lock s' = m \<and>
                  contention_count s' = contention_count s \<and> acquire_bookkeeping s s')
        | (False, _) \<Rightarrow>
            (case LockImpl_Lock t (lock (others s)) of
               None \<Rightarrow> Acquire False t others s = Inl Waits
             | Some m \<Rightarrow>
                 (\<exists>s'. Acquire False t others s = Inr s' \<and> lock s' = m \<and>
                       contention_count s' = contention_count (others s) + 1 \<and>
                       acquire_bookkeeping (others s) s'))"
  proof (cases "LockImpl_Try t (lock s)")
    case (Pair ok m)
    show ?thesis
    proof (cases ok)
      case True
      with Pair show ?thesis
        using Acquire_debug_try_ok [of t s m others] by simp
    next
      case False
      with Pair have fails: "LockImpl_Try t (lock s) = (False, m)" by simp
      show ?thesis
      proof (cases "LockImpl_Lock t (lock (others s))")
        case None
        with fails show ?thesis
          using Acquire_debug_try_fails_waits [of t s m others] by simp
      next
        case (Some m')
        with fails show ?thesis
          using Acquire_debug_try_fails_granted [of t s m others m'] by simp
      qed
    qed
  qed
next
  show "let base = (if LockImpl_Lock t (lock s) = None then others s else s)
        in case LockImpl_Lock t (lock base) of
             None \<Rightarrow> Acquire True t others s = Inl Waits
           | Some m \<Rightarrow>
               Acquire True t others s =
                 Inr (base\<lparr>lock := m,
                        recursion_count_shadow := recursion_count_shadow base + 1\<rparr>)"
  proof (cases "LockImpl_Lock t (lock s)")
    case (Some m)
    then show ?thesis by (simp add: Acquire_ndebug_now)
  next
    case None
    then show ?thesis
      by (cases "LockImpl_Lock t (lock (others s))")
         (simp_all add: Acquire_ndebug_later Acquire_ndebug_waits)
  qed
qed

theorem Acquire_contract_witness:
  "\<exists>s'. Acquire False 0 (\<lambda>x. x\<lparr>lock := Unowned, recursion_count_shadow := 0\<rparr>)
          \<lparr>lock = Owned 1 0, recursion_count_shadow = 1, recursion_used = False,
           acquisition_count = 1, contention_count = 0\<rparr> = Inr s' \<and>
        lock s' = Owned 0 0 \<and> contention_count s' = 1 \<and> recursion_count_shadow s' = 1 \<and>
        acquisition_count s' = 2 \<and> \<not> recursion_used s'"
  using Acquire_contract [where t = 0
      and s = "\<lparr>lock = Owned 1 0, recursion_count_shadow = 1, recursion_used = False,
        acquisition_count = 1, contention_count = 0\<rparr>"
      and others = "\<lambda>x. x\<lparr>lock := Unowned, recursion_count_shadow := 0\<rparr>"]
  by (auto simp add: LockImpl_Try_def LockImpl_Lock_def acquire_bookkeeping_def)

subsection \<open>TryAcquire\<close>

lemma Try_ok_Lock_Some:
  "LockImpl_Try t m = (True, m') \<Longrightarrow> LockImpl_Lock t m = Some m'"
  by (cases m) (auto simp add: LockImpl_Try_def LockImpl_Lock_def split: if_splits)

lemma Try_debug_ok:
  "LockImpl_Try t (lock s) = (True, m) \<Longrightarrow>
   \<exists>s'. Try False t s = (True, s') \<and> Acquire False t others s = Inr s' \<and> lock s' = m \<and>
        contention_count s' = contention_count s \<and> acquire_bookkeeping s s'"
  by (simp add: Try_def Acquire_def acquire_bookkeeping_def Let_def)

lemma Try_ndebug_ok:
  "LockImpl_Try t (lock s) = (True, m) \<Longrightarrow>
   Try True t s = (True, s\<lparr>lock := m, recursion_count_shadow := recursion_count_shadow s + 1\<rparr>) \<and>
   Acquire True t others s =
     Inr (s\<lparr>lock := m, recursion_count_shadow := recursion_count_shadow s + 1\<rparr>)"
  by (simp add: Try_def Let_def Acquire_ndebug_now Try_ok_Lock_Some)

lemma Try_fails:
  "LockImpl_Try t (lock s) = (False, m) \<Longrightarrow> Try ndebug t s = (False, s)"
  by (simp add: Try_def)

text \<open>
  Claim C4.  \<^verbatim>\<open>Try\<close> makes the non-blocking attempt on the mutex and returns
  its outcome.  On success, in an instrumented build the state it leaves is the very
  state \<^verbatim>\<open>Acquire\<close> leaves from the same state: the depth, \<^verbatim>\<open>acquisition_count\<close>
  and \<^verbatim>\<open>recursion_used\<close> follow the bookkeeping of an acquisition and
  \<^verbatim>\<open>contention_count\<close> is as it was; in a non-instrumented build both add 1 to
  the depth and touch nothing else.  On failure it returns false and the whole state
  is as it was.
\<close>

theorem Try_contract:
  "(case LockImpl_Try t (lock s) of
      (True, m) \<Rightarrow>
        (\<exists>s'. Try False t s = (True, s') \<and> Acquire False t others s = Inr s' \<and>
              lock s' = m \<and> contention_count s' = contention_count s \<and>
              acquire_bookkeeping s s') \<and>
        Try True t s =
          (True, s\<lparr>lock := m, recursion_count_shadow := recursion_count_shadow s + 1\<rparr>) \<and>
        Acquire True t others s =
          Inr (s\<lparr>lock := m, recursion_count_shadow := recursion_count_shadow s + 1\<rparr>)
    | (False, _) \<Rightarrow> Try False t s = (False, s) \<and> Try True t s = (False, s))"
proof (cases "LockImpl_Try t (lock s)")
  case (Pair ok m)
  show ?thesis
  proof (cases ok)
    case True
    with Pair have ok: "LockImpl_Try t (lock s) = (True, m)" by simp
    show ?thesis
      using Try_debug_ok [OF ok, of others] Try_ndebug_ok [OF ok, of others] ok by simp
  next
    case False
    with Pair have "LockImpl_Try t (lock s) = (False, m)" by simp
    then show ?thesis by (simp add: Try_fails)
  qed
qed

theorem Try_contract_witness:
  "Try False 0 \<lparr>lock = Owned 1 0, recursion_count_shadow = 1, recursion_used = False,
        acquisition_count = 1, contention_count = 0\<rparr> =
     (False, \<lparr>lock = Owned 1 0, recursion_count_shadow = 1, recursion_used = False,
        acquisition_count = 1, contention_count = 0\<rparr>) \<and>
   (\<exists>s'. Try False 0 \<lparr>lock = Owned 0 0, recursion_count_shadow = 1, recursion_used = False,
        acquisition_count = 1, contention_count = 0\<rparr> = (True, s') \<and>
      lock s' = Owned 0 1 \<and> recursion_count_shadow s' = 2 \<and> recursion_used s' \<and>
      acquisition_count s' = 1 \<and> contention_count s' = 0)"
  using Try_contract [where t = 0 and s = "\<lparr>lock = Owned 1 0, recursion_count_shadow = 1,
        recursion_used = False, acquisition_count = 1, contention_count = 0\<rparr>" and others = id]
    Try_contract [where t = 0 and s = "\<lparr>lock = Owned 0 0, recursion_count_shadow = 1,
        recursion_used = False, acquisition_count = 1, contention_count = 0\<rparr>" and others = id]
  by (auto simp add: LockImpl_Try_def acquire_bookkeeping_def)

subsection \<open>Nested acquisitions and releases\<close>

lemma Acquire_held_at:
  assumes "held_at t d s"
  shows "\<exists>s'. Acquire ndebug t others s = Inr s' \<and> held_at t (Suc d) s'"
proof -
  have try_ok: "LockImpl_Try t (lock s) = (True, Owned t d)"
    using assms by (cases d) (simp_all add: held_at_def LockImpl_Try_def)
  show ?thesis
  proof (cases ndebug)
    case True
    with assms show ?thesis
      using Try_ndebug_ok [OF try_ok, of others] by (simp add: held_at_def)
  next
    case False
    from Acquire_debug_try_ok [OF try_ok, of others]
    obtain s' where "Acquire False t others s = Inr s'" "lock s' = Owned t d"
      "acquire_bookkeeping s s'" by blast
    with assms False show ?thesis
      by (simp add: held_at_def acquire_bookkeeping_def)
  qed
qed

lemma Release_held_at:
  assumes "held_at t (Suc d) s"
  shows "\<exists>s'. Release ndebug t s = Inr s' \<and> held_at t d s'"
  using assms
  by (cases d) (simp_all add: held_at_def Release_def DCHECK_def lock_Unlock_def
      LockImpl_Unlock_def Let_def)

lemma repeat_Acquire_held_at:
  "held_at t d s \<Longrightarrow>
   \<exists>s'. repeat_call k (Acquire ndebug t others) s = Inr s' \<and> held_at t (d + k) s'"
proof (induction k arbitrary: d s)
  case 0
  then show ?case by simp
next
  case (Suc k)
  from Acquire_held_at [OF Suc.prems, of ndebug others]
  obtain s1 where s1: "Acquire ndebug t others s = Inr s1" "held_at t (Suc d) s1" by blast
  from Suc.IH [OF s1(2)] s1(1) show ?case by simp
qed

lemma repeat_Release_held_at:
  "held_at t (d + k) s \<Longrightarrow>
   \<exists>s'. repeat_call k (Release ndebug t) s = Inr s' \<and> held_at t d s'"
proof (induction k arbitrary: s)
  case 0
  then show ?case by simp
next
  case (Suc k)
  then have "held_at t (Suc (d + k)) s" by simp
  from Release_held_at [OF this, of ndebug]
  obtain s1 where s1: "Release ndebug t s = Inr s1" "held_at t (d + k) s1" by blast
  from Suc.IH [OF s1(2)] s1(1) show ?case by simp
qed

text \<open>
  Claim C2.  From a lock that no thread holds, \<open>k\<close> calls of \<^verbatim>\<open>Acquire\<close> by one
  thread, with no \<^verbatim>\<open>Release\<close> in between, all return and leave the depth at
  \<open>k\<close>; the \<open>k\<close> calls of \<^verbatim>\<open>Release\<close> that follow all return and leave the
  depth at 0 and the mutex unowned.  This holds in both builds and whatever the other
  threads would do while a call waits, since none of these calls has to wait.
\<close>

theorem Acquire_Release_nesting:
  assumes "1 \<le> k" and "held_at t 0 s"
  shows "\<exists>s1 s2. repeat_call k (Acquire ndebug t others) s = Inr s1 \<and>
           recursion_count_shadow s1 = int k \<and>
           repeat_call k (Release ndebug t) s1 = Inr s2 \<and>
           recursion_count_shadow s2 = 0 \<and> lock s2 = Unowned"
proof -
  from repeat_Acquire_held_at [OF assms(2), of k ndebug others]
  obtain s1 where s1: "repeat_call k (Acquire ndebug t others) s = Inr s1" "held_at t (0 + k) s1"
    by blast
  from repeat_Release_held_at [OF s1(2), of ndebug]
  obtain s2 where s2: "repeat_call k (Release ndebug t) s1 = Inr s2" "held_at t 0 s2"
    by blast
  from s1 s2 show ?thesis by (auto simp add: held_at_def)
qed

theorem Acquire_Release_nesting_witness:
  "\<exists>s1 s2. repeat_call 3 (Acquire False 0 id)
             \<lparr>lock = Unowned, recursion_count_shadow = 0, recursion_used = False,
              acquisition_count = 0, contention_count = 0\<rparr> = Inr s1 \<and>
           recursion_count_shadow s1 = 3 \<and>
           repeat_call 3 (Release False 0) s1 = Inr s2 \<and>
           recursion_count_shadow s2 = 0 \<and> lock s2 = Unowned"
proof -
  have "(1::nat) \<le> 3" by simp
  moreover have "held_at 0 0 \<lparr>lock = Unowned, recursion_count_shadow = 0,
      recursion_used = False, acquisition_count = 0, contention_count = 0\<rparr>"
    by (simp add: held_at_def)
  ultimately show ?thesis
    using Acquire_Release_nesting [of 3 0 "\<lparr>lock = Unowned, recursion_count_shadow = 0,
      recursion_used = False, acquisition_count = 0, contention_count = 0\<rparr>" False id]
    by simp
qed

subsection \<open>GetCurrentThreadRecursionCount\<close>

lemma GetCurrentThreadRecursionCount_ndebug:
  "GetCurrentThreadRecursionCount True t others s = Inr (recursion_count_shadow s, s)"
  by (simp add: GetCurrentThreadRecursionCount_def)

lemma Lock_Unlock_same:
  "LockImpl_Lock t m = Some m' \<Longrightarrow> LockImpl_Unlock t m' = Some m"
  by (cases m) (auto simp add: LockImpl_Lock_def LockImpl_Unlock_def split: if_splits)

lemma lock_Unlock_after_Lock:
  assumes "LockImpl_Lock t (lock s) = Some m"
  shows "lock_Unlock t (s\<lparr>lock := m\<rparr>) = Inr s"
  using Lock_Unlock_same [OF assms] by (simp add: lock_Unlock_def)

lemma GetCurrentThreadRecursionCount_debug_now:
  assumes "LockImpl_Lock t (lock s) = Some m"
  shows "GetCurrentThreadRecursionCount False t others s =
           (if 1 \<le> recursion_count_shadow s then Inr (recursion_count_shadow s, s)
            else Inl DCheck_failed)"
  using lock_Lock_now [OF assms, of others] lock_Unlock_after_Lock [OF assms]
  by (simp add: GetCurrentThreadRecursionCount_def DCHECK_def)

lemma held_at_Lock:
  "held_at t d s \<Longrightarrow> LockImpl_Lock t (lock s) = Some (Owned t d)"
  by (cases d) (simp_all add: held_at_def LockImpl_Lock_def)

lemma GetCurrentThreadRecursionCount_held_at:
  assumes "1 \<le> d" and "held_at t d s"
  shows "GetCurrentThreadRecursionCount ndebug t others s = Inr (int d, s)"
proof (cases ndebug)
  case True
  with assms(2) show ?thesis
    by (simp add: GetCurrentThreadRecursionCount_ndebug held_at_def)
next
  case False
  from assms have "1 \<le> recursion_count_shadow s" "recursion_count_shadow s = int d"
    by (simp_all add: held_at_def)
  with False show ?thesis
    using GetCurrentThreadRecursionCount_debug_now [OF held_at_Lock [OF assms(2)], of others]
    by simp
qed

text \<open>
  Claim C7.  Called by the thread that holds the lock at depth \<open>d \<ge> 1\<close>,
  \<^verbatim>\<open>GetCurrentThreadRecursionCount\<close> returns \<open>d\<close> and leaves the object exactly
  as it was: the depth, \<^verbatim>\<open>acquisition_count\<close>, \<^verbatim>\<open>contention_count\<close>,
  \<^verbatim>\<open>recursion_used\<close> and the mutex.  This holds in both builds; in the
  instrumented one the inner pair \<^verbatim>\<open>lock_.Lock()\<close>, \<^verbatim>\<open>lock_.Unlock()\<close>
  goes straight to the mutex and is counted nowhere.
\<close>

theorem GetCurrentThreadRecursionCount_holder:
  assumes "1 \<le> d" and "held_at t d s"
  shows "GetCurrentThreadRecursionCount ndebug t others s = Inr (int d, s)"
  using assms by (rule GetCurrentThreadRecursionCount_held_at)

theorem GetCurrentThreadRecursionCount_holder_witness:
  "GetCurrentThreadRecursionCount False 0 id
     \<lparr>lock = Owned 0 1, recursion_count_shadow = 2, recursion_used = True,
      acquisition_count = 1, contention_count = 0\<rparr> =
   Inr (2, \<lparr>lock = Owned 0 1, recursion_count_shadow = 2, recursion_used = True,
      acquisition_count = 1, contention_count = 0\<rparr>)"
proof -
  have "(1::nat) \<le> 2" by simp
  moreover have "held_at 0 2 \<lparr>lock = Owned 0 1, recursion_count_shadow = 2,
      recursion_used = True, acquisition_count = 1, contention_count = 0\<rparr>"
    by (simp add: held_at_def numeral_2_eq_2)
  ultimately show ?thesis
    using GetCurrentThreadRecursionCount_holder [of 2 0 "\<lparr>lock = Owned 0 1,
      recursion_count_shadow = 2, recursion_used = True, acquisition_count = 1,
      contention_count = 0\<rparr>" False id]
    by simp
qed

text \<open>
  Claim C8, as stated, fails: on a lock that no thread holds, in an instrumented
  build, the call reads the count 0 under the mutex and \<^verbatim>\<open>DCHECK(temp >= 1)\<close>
  fires.
\<close>

theorem GetCurrentThreadRecursionCount_not_held_counterexample:
  "GetCurrentThreadRecursionCount False 0 id
     \<lparr>lock = Unowned, recursion_count_shadow = 0, recursion_used = False,
      acquisition_count = 0, contention_count = 0\<rparr> = Inl DCheck_failed"
  by (simp add: GetCurrentThreadRecursionCount_def lock_Lock_def lock_Unlock_def
      LockImpl_Lock_def LockImpl_Unlock_def DCHECK_def)

text \<open>
  Claim C8, amended.  Called on a lock that no thread holds (depth 0, mutex unowned),
  \<^verbatim>\<open>GetCurrentThreadRecursionCount\<close> signals no error in a non-instrumented
  build only: there it returns the value of the field, 0, and leaves the object as it
  was.  In an instrumented build it triggers the fatal assertion.
\<close>

theorem GetCurrentThreadRecursionCount_not_held:
  assumes "held_at t 0 s"
  shows "GetCurrentThreadRecursionCount True t others s = Inr (0, s) \<and>
         GetCurrentThreadRecursionCount False t others s = Inl DCheck_failed"
proof -
  from assms have "recursion_count_shadow s = 0" by (simp add: held_at_def)
  then show ?thesis
    using GetCurrentThreadRecursionCount_debug_now [OF held_at_Lock [OF assms], of others]
    by (simp add: GetCurrentThreadRecursionCount_ndebug)
qed

theorem GetCurrentThreadRecursionCount_not_held_witness:
  "GetCurrentThreadRecursionCount True 0 id
     \<lparr>lock = Unowned, recursion_count_shadow = 0, recursion_used = False,
      acquisition_count = 4, contention_count = 1\<rparr> =
     Inr (0, \<lparr>lock = Unowned, recursion_count_shadow = 0, recursion_used = False,
      acquisition_count = 4, contention_count = 1\<rparr>) \<and>
   GetCurrentThreadRecursionCount False 0 id
     \<lparr>lock = Unowned, recursion_count_shadow = 0, recursion_used = False,
      acquisition_count = 4, contention_count = 1\<rparr> = Inl DCheck_failed"
proof -
  have "held_at 0 0 \<lparr>lock = Unowned, recursion_count_shadow = 0, recursion_used = False,
      acquisition_count = 4, contention_count = 1\<rparr>"
    by (simp add: held_at_def)
  then show ?thesis
    by (rule GetCurrentThreadRecursionCount_not_held)
qed

subsection \<open>The destructor of the lock\<close>

lemma Lock_dtor_now:
  assumes "LockImpl_Lock t (lock s) = Some m"
  shows "Lock_dtor False t others s =
           (if recursion_count_shadow s \<noteq> 0 then Inl DCheck_failed else Inr ())"
  using lock_Lock_now [OF assms, of others] lock_Unlock_after_Lock [OF assms]
  by (simp add: Lock_dtor_def DCHECK_def)

lemma Lock_dtor_later:
  assumes "LockImpl_Lock t (lock s) = None"
    and "LockImpl_Lock t (lock (others s)) = Some m"
  shows "Lock_dtor False t others s =
           (if recursion_count_shadow (others s) \<noteq> 0 then Inl DCheck_failed else Inr ())"
proof -
  have "lock_Lock t others s = Inr ((others s)\<lparr>lock := m\<rparr>)"
    using assms by (simp add: lock_Lock_later)
  moreover have "lock_Unlock t ((others s)\<lparr>lock := m\<rparr>) = Inr (others s)"
    using assms(2) by (rule lock_Unlock_after_Lock)
  ultimately show ?thesis
    by (simp add: Lock_dtor_def DCHECK_def)
qed

lemma Lock_dtor_waits:
  assumes "LockImpl_Lock t (lock s) = None"
    and "LockImpl_Lock t (lock (others s)) = None"
  shows "Lock_dtor False t others s = Inl Waits"
  using assms by (simp add: Lock_dtor_def lock_Lock_waits)

text \<open>
  Claim C9, as stated, fails: thread 1 holds the lock at depth 1 and thread 0 destroys
  it in an instrumented build.  The depth is not 0, yet no assertion is triggered:
  the destructor waits in \<^verbatim>\<open>lock_.Lock()\<close> for the mutex that thread 1 owns.
\<close>

theorem Lock_dtor_held_by_other_counterexample:
  "Lock_dtor False 0 id
     \<lparr>lock = Owned 1 0, recursion_count_shadow = 1, recursion_used = False,
      acquisition_count = 1, contention_count = 0\<rparr> = Inl Waits"
  by (simp add: Lock_dtor_def lock_Lock_def LockImpl_Lock_def)

text \<open>
  Claim C9, amended.  In an instrumented build, when no other thread owns the mutex
  (the destroying thread holds the lock, or no thread does), destroying a lock whose
  depth is not 0 triggers the fatal assertion, and destroying it at depth 0 does not.
  When another thread owns the mutex the destructor waits in \<^verbatim>\<open>lock_.Lock()\<close>;
  if it is handed the mutex, it triggers the assertion if and only if the depth it
  then reads is not 0.  In a non-instrumented build the destructor checks nothing
  and returns.
\<close>

theorem Lock_dtor_check:
  "(LockImpl_Lock t (lock s) \<noteq> None \<longrightarrow>
      Lock_dtor False t others s =
        (if recursion_count_shadow s \<noteq> 0 then Inl DCheck_failed else Inr ())) \<and>
   (LockImpl_Lock t (lock s) = None \<longrightarrow>
      (case LockImpl_Lock t (lock (others s)) of
         None \<Rightarrow> Lock_dtor False t others s = Inl Waits
       | Some m \<Rightarrow>
           Lock_dtor False t others s =
             (if recursion_count_shadow (others s) \<noteq> 0 then Inl DCheck_failed
              else Inr ()))) \<and>
   Lock_dtor True t others s = Inr ()"
proof (intro conjI impI)
  assume "LockImpl_Lock t (lock s) \<noteq> None"
  then obtain m where "LockImpl_Lock t (lock s) = Some m" by blast
  then show "Lock_dtor False t others s =
               (if recursion_count_shadow s \<noteq> 0 then Inl DCheck_failed else Inr ())"
    by (rule Lock_dtor_now)
next
  assume none: "LockImpl_Lock t (lock s) = None"
  show "case LockImpl_Lock t (lock (others s)) of
          None \<Rightarrow> Lock_dtor False t others s = Inl Waits
        | Some m \<Rightarrow>
            Lock_dtor False t others s =
              (if recursion_count_shadow (others s) \<noteq> 0 then Inl DCheck_failed
               else Inr ())"
    using none
    by (cases "LockImpl_Lock t (lock (others s))")
       (simp_all add: Lock_dtor_later Lock_dtor_waits)
next
  show "Lock_dtor True t others s = Inr ()"
    by (simp add: Lock_dtor_def)
qed

theorem Lock_dtor_check_witness:
  "Lock_dtor False 0 id
     \<lparr>lock = Owned 0 0, recursion_count_shadow = 1, recursion_used = False,
      acquisition_count = 1, contention_count = 0\<rparr> = Inl DCheck_failed \<and>
   Lock_dtor False 0 id
     \<lparr>lock = Unowned, recursion_count_shadow = 0, recursion_used = False,
      acquisition_count = 1, contention_count = 0\<rparr> = Inr () \<and>
   Lock_dtor False 0 (\<lambda>x. x\<lparr>lock := Unowned, recursion_count_shadow := 0\<rparr>)
     \<lparr>lock = Owned 1 0, recursion_count_shadow = 1, recursion_used = False,
      acquisition_count = 1, contention_count = 0\<rparr> = Inr () \<and>
   Lock_dtor False 0 (\<lambda>x. x\<lparr>lock := Owned 1 1, recursion_count_shadow := 2\<rparr>)
     \<lparr>lock = Owned 1 0, recursion_count_shadow = 1, recursion_used = False,
      acquisition_count = 1, contention_count = 0\<rparr> = Inl Waits \<and>
   Lock_dtor True 0 id
     \<lparr>lock = Owned 0 0, recursion_count_shadow = 1, recursion_used = False,
      acquisition_count = 1, contention_count = 0\<rparr> = Inr ()"
  using Lock_dtor_check [where t = 0 and others = id
      and s = "\<lparr>lock = Owned 0 0, recursion_count_shadow = 1, recursion_used = False,
        acquisition_count = 1, contention_count = 0\<rparr>"]
    Lock_dtor_check [where t = 0 and others = id
      and s = "\<lparr>lock = Unowned, recursion_count_shadow = 0, recursion_used = False,
        acquisition_count = 1, contention_count = 0\<rparr>"]
    Lock_dtor_check [where t = 0
      and others = "\<lambda>x. x\<lparr>lock := Unowned, recursion_count_shadow := 0\<rparr>"
      and s = "\<lparr>lock = Owned 1 0, recursion_count_shadow = 1, recursion_used = False,
        acquisition_count = 1, contention_count = 0\<rparr>"]
    Lock_dtor_check [where t = 0
      and others = "\<lambda>x. x\<lparr>lock := Owned 1 1, recursion_count_shadow := 2\<rparr>"
      and s = "\<lparr>lock = Owned 1 0, recursion_count_shadow = 1, recursion_used = False,
        acquisition_count = 1, contention_count = 0\<rparr>"]
  by (simp add: LockImpl_Lock_def)

subsection \<open>AutoUnlock\<close>

lemma AutoUnlock_ctor_loop_calls:
  "AutoUnlock_ctor_loop ndebug t count a s =
     (case repeat_call (nat count) (Release ndebug t) s of
        Inl e \<Rightarrow> Inl e
      | Inr s' \<Rightarrow> Inr (a\<lparr>release_count := release_count a + int (nat count)\<rparr>, s'))"
proof (induction ndebug t count a s rule: AutoUnlock_ctor_loop.induct)
  case (1 ndebug t count a s)
  show ?case
  proof (cases "count > 0")
    case False
    then show ?thesis by (simp add: AutoUnlock_ctor_loop.simps [of ndebug t count a s])
  next
    case True
    then have n: "nat count = Suc (nat (count - 1))" by simp
    show ?thesis
    proof (cases "Release ndebug t s")
      case (Inl e)
      with True n show ?thesis
        by (simp add: AutoUnlock_ctor_loop.simps [of ndebug t count a s])
    next
      case (Inr s')
      have "int (nat count) = 1 + int (nat (count - 1))" using True by simp
      with True Inr "1.IH" [OF True Inr] show ?thesis
        by (simp add: AutoUnlock_ctor_loop.simps [of ndebug t count a s] n
            split: sum.splits)
    qed
  qed
qed

lemma AutoUnlock_dtor_loop_calls:
  "AutoUnlock_dtor_loop ndebug t others a s =
     repeat_call (nat (release_count a)) (Acquire ndebug t others) s"
proof (induction ndebug t others a s rule: AutoUnlock_dtor_loop.induct)
  case (1 ndebug t others a s)
  show ?case
  proof (cases "release_count a > 0")
    case False
    then show ?thesis by (simp add: AutoUnlock_dtor_loop.simps [of ndebug t others a s])
  next
    case True
    then have n: "nat (release_count a) = Suc (nat (release_count a - 1))" by simp
    show ?thesis
    proof (cases "Acquire ndebug t others s")
      case (Inl e)
      with True n show ?thesis
        by (simp add: AutoUnlock_dtor_loop.simps [of ndebug t others a s])
    next
      case (Inr s')
      with True "1.IH" [OF True Inr] show ?thesis
        by (simp add: AutoUnlock_dtor_loop.simps [of ndebug t others a s] n)
    qed
  qed
qed

lemma AutoUnlock_ctor_held_at:
  assumes "1 \<le> d" and "held_at t d s"
  shows "AutoUnlock_ctor ndebug t others s =
           (case repeat_call d (Release ndebug t) s of
              Inl e \<Rightarrow> Inl e
            | Inr s' \<Rightarrow> Inr (\<lparr>release_count = int d\<rparr>, s'))"
  using assms(1)
  by (simp add: AutoUnlock_ctor_def GetCurrentThreadRecursionCount_held_at [OF assms]
      DCHECK_def AutoUnlock_ctor_loop_calls split: sum.splits)

lemma AutoUnlock_dtor_calls:
  "0 \<le> release_count a \<Longrightarrow>
   AutoUnlock_dtor ndebug t others a s =
     repeat_call (nat (release_count a)) (Acquire ndebug t others) s"
  by (simp add: AutoUnlock_dtor_def DCHECK_def AutoUnlock_dtor_loop_calls)

text \<open>
  Claim C3.  On a lock that the calling thread holds at depth \<open>d \<ge> 1\<close>, the
  constructor of \<^verbatim>\<open>AutoUnlock\<close> returns with \<^verbatim>\<open>release_count\<close> equal to
  \<open>d\<close>, and the state it leaves is the one that \<open>d\<close> calls of \<^verbatim>\<open>Release\<close>
  leave: depth 0 and the mutex unowned.  The destructor, run on that state with no
  step of another thread in between, returns, and the state it leaves is the one that
  \<open>d\<close> calls of \<^verbatim>\<open>Acquire\<close> leave: the calling thread holds the lock at depth
  \<open>d\<close> again.  This holds in both builds.
\<close>

theorem AutoUnlock_round_trip:
  assumes "1 \<le> d" and "held_at t d s"
  shows "\<exists>a s1 s2.
           AutoUnlock_ctor ndebug t others s = Inr (a, s1) \<and>
           release_count a = int d \<and>
           repeat_call d (Release ndebug t) s = Inr s1 \<and>
           recursion_count_shadow s1 = 0 \<and> lock s1 = Unowned \<and>
           AutoUnlock_dtor ndebug t others a s1 = Inr s2 \<and>
           repeat_call (nat (release_count a)) (Acquire ndebug t others) s1 = Inr s2 \<and>
           recursion_count_shadow s2 = int d \<and> held_at t d s2"
proof -
  from assms(2) have "held_at t (0 + d) s" by simp
  from repeat_Release_held_at [OF this, of ndebug]
  obtain s1 where s1: "repeat_call d (Release ndebug t) s = Inr s1" "held_at t 0 s1"
    by blast
  from repeat_Acquire_held_at [OF s1(2), of d ndebug others]
  obtain s2 where s2: "repeat_call d (Acquire ndebug t others) s1 = Inr s2" "held_at t d s2"
    by auto
  have ctor: "AutoUnlock_ctor ndebug t others s = Inr (\<lparr>release_count = int d\<rparr>, s1)"
    using s1(1) by (simp add: AutoUnlock_ctor_held_at [OF assms])
  have dtor: "AutoUnlock_dtor ndebug t others \<lparr>release_count = int d\<rparr> s1 = Inr s2"
    using s2(1) by (simp add: AutoUnlock_dtor_calls)
  from s1(2) have "recursion_count_shadow s1 = 0" "lock s1 = Unowned"
    by (simp_all add: held_at_def)
  moreover from s2(2) have "recursion_count_shadow s2 = int d"
    by (simp add: held_at_def)
  ultimately show ?thesis
    using ctor dtor s1(1) s2 by simp
qed

theorem AutoUnlock_round_trip_witness:
  "\<exists>a s1 s2.
     AutoUnlock_ctor False 0 id
       \<lparr>lock = Owned 0 1, recursion_count_shadow = 2, recursion_used = True,
        acquisition_count = 1, contention_count = 0\<rparr> = Inr (a, s1) \<and>
     release_count a = 2 \<and> recursion_count_shadow s1 = 0 \<and> lock s1 = Unowned \<and>
     AutoUnlock_dtor False 0 id a s1 = Inr s2 \<and>
     recursion_count_shadow s2 = 2 \<and> lock s2 = Owned 0 1"
proof -
  have "(1::nat) \<le> 2" by simp
  moreover have "held_at 0 2 \<lparr>lock = Owned 0 1, recursion_count_shadow = 2,
      recursion_used = True, acquisition_count = 1, contention_count = 0\<rparr>"
    by (simp add: held_at_def numeral_2_eq_2)
  ultimately obtain a s1 s2 where
    "AutoUnlock_ctor False 0 id
       \<lparr>lock = Owned 0 1, recursion_count_shadow = 2, recursion_used = True,
        acquisition_count = 1, contention_count = 0\<rparr> = Inr (a, s1)"
    "release_count a = 2" "recursion_count_shadow s1 = 0" "lock s1 = Unowned"
    "AutoUnlock_dtor False 0 id a s1 = Inr s2"
    "recursion_count_shadow s2 = 2" "held_at 0 2 s2"
    using AutoUnlock_round_trip [of 2 0 "\<lparr>lock = Owned 0 1, recursion_count_shadow = 2,
      recursion_used = True, acquisition_count = 1, contention_count = 0\<rparr>" False id]
    by auto
  moreover from this have "lock s2 = Owned 0 1"
    by (simp add: held_at_def numeral_2_eq_2)
  ultimately show ?thesis by blast
qed

text \<open>
  Claim C10.  In a non-instrumented build, on a lock whose depth is 0, the constructor
  of \<^verbatim>\<open>AutoUnlock\<close> reads the count 0, calls \<^verbatim>\<open>Release\<close> no time and
  returns with \<^verbatim>\<open>release_count\<close> 0 and the lock as it was; the destructor then
  calls \<^verbatim>\<open>Acquire\<close> no time and returns with the lock as it was.  No fault is
  raised.
\<close>

theorem AutoUnlock_unheld_ndebug:
  assumes "recursion_count_shadow s = 0"
  shows "AutoUnlock_ctor True t others s = Inr (\<lparr>release_count = 0\<rparr>, s) \<and>
         AutoUnlock_ctor_loop True t 0 \<lparr>release_count = 0\<rparr> s =
           (case repeat_call 0 (Release True t) s of
              Inl e \<Rightarrow> Inl e
            | Inr s' \<Rightarrow> Inr (\<lparr>release_count = 0\<rparr>, s')) \<and>
         AutoUnlock_dtor True t others \<lparr>release_count = 0\<rparr> s =
           repeat_call 0 (Acquire True t others) s \<and>
         AutoUnlock_dtor True t others \<lparr>release_count = 0\<rparr> s = Inr s"
  using assms
  by (simp add: AutoUnlock_ctor_def GetCurrentThreadRecursionCount_ndebug DCHECK_def
      AutoUnlock_ctor_loop_calls AutoUnlock_dtor_calls split: sum.splits)

theorem AutoUnlock_unheld_ndebug_witness:
  "AutoUnlock_ctor True 0 id
     \<lparr>lock = Unowned, recursion_count_shadow = 0, recursion_used = False,
      acquisition_count = 0, contention_count = 0\<rparr> =
     Inr (\<lparr>release_count = 0\<rparr>,
       \<lparr>lock = Unowned, recursion_count_shadow = 0, recursion_used = False,
        acquisition_count = 0, contention_count = 0\<rparr>) \<and>
   AutoUnlock_dtor True 0 id \<lparr>release_count = 0\<rparr>
     \<lparr>lock = Unowned, recursion_count_shadow = 0, recursion_used = False,
      acquisition_count = 0, contention_count = 0\<rparr> =
     Inr \<lparr>lock = Unowned, recursion_count_shadow = 0, recursion_used = False,
      acquisition_count = 0, contention_count = 0\<rparr>"
  using AutoUnlock_unheld_ndebug [where t = 0 and others = id
      and s = "\<lparr>lock = Unowned, recursion_count_shadow = 0, recursion_used = False,
        acquisition_count = 0, contention_count = 0\<rparr>"]
  by simp

subsection \<open>Steps of a history\<close>

lemma Acquire_debug_bookkeeping:
  assumes "Acquire False t others s = Inr s'"
  shows "acquire_bookkeeping (if LockImpl_Lock t (lock s) = None then others s else s) s' \<and>
         contention_count s' =
           (if LockImpl_Lock t (lock s) = None then contention_count (others s) + 1
            else contention_count s)"
proof (cases "LockImpl_Try t (lock s)")
  case (Pair ok m)
  show ?thesis
  proof (cases ok)
    case True
    with Pair have ok: "LockImpl_Try t (lock s) = (True, m)" by simp
    from Try_ok_Lock_Some [OF ok] Acquire_debug_try_ok [OF ok, of others] assms
    show ?thesis by auto
  next
    case False
    with Pair have fails: "LockImpl_Try t (lock s) = (False, m)" by simp
    note none = Try_fails_Lock_None [OF fails]
    show ?thesis
    proof (cases "LockImpl_Lock t (lock (others s))")
      case None
      from Acquire_debug_try_fails_waits [where others = others, OF fails None] assms
      show ?thesis by simp
    next
      case (Some m')
      from Acquire_debug_try_fails_granted [where others = others, OF fails Some] assms none
      show ?thesis by auto
    qed
  qed
qed

text \<open>
  Whatever the state in which a call of \<^verbatim>\<open>Acquire\<close> entered and had to wait, its
  effect is that of \<open>Op_Acquire_after_wait\<close> in the state of the hand-over.
\<close>

lemma Acquire_after_wait_entry:
  assumes "LockImpl_Lock t (lock e) = None"
  shows "Acquire ndebug t (\<lambda>x. s) e = exec ndebug (t, Op_Acquire_after_wait) s"
proof -
  have e: "LockImpl_Try t (lock e) = (False, lock e)"
    using assms by (cases "lock e") (auto simp add: LockImpl_Try_def LockImpl_Lock_def)
  have e': "LockImpl_Try t (Owned (Suc t) 0) = (False, Owned (Suc t) 0)"
       "LockImpl_Lock t (Owned (Suc t) 0) = None"
    by (simp_all add: LockImpl_Try_def LockImpl_Lock_def)
  show ?thesis
    using assms e e' by (simp add: Acquire_def lock_Lock_def)
qed

lemma exec_Acquire_bookkeeping:
  assumes "exec False (t, Op_Acquire) s = Inr s'"
  shows "acquire_bookkeeping s s'"
  using Acquire_debug_bookkeeping [of t "\<lambda>x. x" s s'] assms by simp

lemma exec_Acquire_after_wait_bookkeeping:
  assumes "exec False (t, Op_Acquire_after_wait) s = Inr s'"
  shows "acquire_bookkeeping s s'"
proof -
  have "LockImpl_Lock t (lock (s\<lparr>lock := Owned (Suc t) 0\<rparr>)) = None"
    by (simp add: LockImpl_Lock_def)
  with Acquire_debug_bookkeeping [of t "\<lambda>x. s" "s\<lparr>lock := Owned (Suc t) 0\<rparr>" s'] assms
  show ?thesis by simp
qed

lemma Try_debug_bookkeeping:
  "Try False t s = (ok, s') \<Longrightarrow>
   (if ok then acquire_bookkeeping s s' else s' = s) \<and> contention_count s' = contention_count s"
proof (cases "LockImpl_Try t (lock s)")
  case (Pair ok' m)
  assume r: "Try False t s = (ok, s')"
  show ?thesis
  proof (cases ok')
    case True
    with Pair have "LockImpl_Try t (lock s) = (True, m)" by simp
    from Try_debug_ok [OF this, of id] r show ?thesis by auto
  next
    case False
    with Pair have "LockImpl_Try t (lock s) = (False, m)" by simp
    from Try_fails [OF this, of False] r show ?thesis by simp
  qed
qed

lemma Release_fields:
  assumes "Release ndebug t s = Inr s'"
  shows "recursion_count_shadow s' = recursion_count_shadow s - 1 \<and>
         recursion_used s' = recursion_used s \<and>
         acquisition_count s' = acquisition_count s \<and>
         contention_count s' = contention_count s"
proof (cases "LockImpl_Unlock t (lock s)")
  case None
  with assms show ?thesis
    by (simp add: Release_def lock_Unlock_def Let_def split: sum.splits)
next
  case (Some m)
  with assms show ?thesis
    by (auto simp add: Release_def lock_Unlock_def Let_def split: sum.splits)
qed

lemma exec_latch_step:
  assumes "exec False e s = Inr s'"
    and "2 \<le> recursion_count_shadow s \<longrightarrow> recursion_used s"
  shows "(2 \<le> recursion_count_shadow s' \<longrightarrow> recursion_used s') \<and>
         (recursion_used s' \<longleftrightarrow> recursion_used s \<or> recursion_count_shadow s' = 2)"
proof (cases e)
  case (Pair t c)
  show ?thesis
  proof (cases c)
    case Op_Acquire
    with Pair assms(1) have "acquire_bookkeeping s s'"
      by (simp add: exec_Acquire_bookkeeping)
    with assms(2) show ?thesis by (auto simp add: acquire_bookkeeping_def)
  next
    case Op_Acquire_after_wait
    with Pair assms(1) have "acquire_bookkeeping s s'"
      by (simp add: exec_Acquire_after_wait_bookkeeping)
    with assms(2) show ?thesis by (auto simp add: acquire_bookkeeping_def)
  next
    case Op_Try
    with Pair assms(1) have "Try False t s = (fst (Try False t s), s')" by auto
    from Try_debug_bookkeeping [OF this] assms(2) show ?thesis
      by (auto simp add: acquire_bookkeeping_def split: if_splits)
  next
    case Op_Release
    with Pair assms(1) have "Release False t s = Inr s'" by simp
    from Release_fields [OF this] assms(2) show ?thesis by auto
  qed
qed

subsection \<open>The latch recursion_used\<close>

lemma states_first: "states ndebug es s ! 0 = s"
  by (cases es) simp_all

lemma ex_le_Suc_Cons:
  "(\<exists>j\<le>Suc i. P ((x # xs) ! j)) \<longleftrightarrow> P x \<or> (\<exists>j\<le>i. P (xs ! j))"
proof
  assume "\<exists>j\<le>Suc i. P ((x # xs) ! j)"
  then obtain j where j: "j \<le> Suc i" "P ((x # xs) ! j)" by blast
  show "P x \<or> (\<exists>j\<le>i. P (xs ! j))"
  proof (cases j)
    case 0
    with j show ?thesis by simp
  next
    case (Suc j')
    with j have "j' \<le> i" "P (xs ! j')" by simp_all
    then show ?thesis by blast
  qed
next
  assume "P x \<or> (\<exists>j\<le>i. P (xs ! j))"
  then show "\<exists>j\<le>Suc i. P ((x # xs) ! j)"
  proof
    assume "P x"
    then have "0 \<le> Suc i \<and> P ((x # xs) ! 0)" by simp
    then show ?thesis by blast
  next
    assume "\<exists>j\<le>i. P (xs ! j)"
    then obtain j where "j \<le> i" "P (xs ! j)" by blast
    then have "Suc j \<le> Suc i \<and> P ((x # xs) ! Suc j)" by simp
    then show ?thesis by blast
  qed
qed

lemma latch_states:
  assumes "2 \<le> recursion_count_shadow s \<longrightarrow> recursion_used s"
    and "i < length (states False es s)"
  shows "recursion_used (states False es s ! i) \<longleftrightarrow>
           recursion_used s \<or> (\<exists>j\<le>i. recursion_count_shadow (states False es s ! j) = 2)"
  using assms
proof (induction es arbitrary: s i)
  case Nil
  then show ?case by auto
next
  case (Cons e es)
  show ?case
  proof (cases i)
    case 0
    with Cons.prems(1) show ?thesis by auto
  next
    case (Suc i')
    show ?thesis
    proof (cases "exec False e s")
      case (Inl f)
      with Cons.prems(2) Suc show ?thesis by simp
    next
      case (Inr s')
      let ?st = "states False es s'"
      note step = exec_latch_step [OF Inr Cons.prems(1)]
      from step have inv': "2 \<le> recursion_count_shadow s' \<longrightarrow> recursion_used s'"
        by (rule conjunct1)
      from step have used':
        "recursion_used s' \<longleftrightarrow> recursion_used s \<or> recursion_count_shadow s' = 2"
        by (rule conjunct2)
      from Cons.prems(2) Suc Inr have len: "i' < length ?st" by simp
      from Cons.IH [OF inv' len]
      have ih: "recursion_used (?st ! i') \<longleftrightarrow>
                  recursion_used s' \<or> (\<exists>j\<le>i'. recursion_count_shadow (?st ! j) = 2)" .
      have first: "recursion_count_shadow s' = 2 \<Longrightarrow>
                     \<exists>j\<le>i'. recursion_count_shadow (?st ! j) = 2"
      proof -
        assume "recursion_count_shadow s' = 2"
        then have "0 \<le> i' \<and> recursion_count_shadow (?st ! 0) = 2"
          by (simp add: states_first)
        then show ?thesis by blast
      qed
      have "recursion_used ((s # ?st) ! Suc i') \<longleftrightarrow>
              recursion_used s \<or> (\<exists>j\<le>i'. recursion_count_shadow (?st ! j) = 2)"
        using ih used' first by auto
      also have "\<dots> \<longleftrightarrow> recursion_used s \<or>
              (\<exists>j\<le>Suc i'. recursion_count_shadow ((s # ?st) ! j) = 2)"
        using Cons.prems(1)
        by (simp only: ex_le_Suc_Cons [where P = "\<lambda>x. recursion_count_shadow x = 2"]) auto
      finally show ?thesis using Suc Inr by simp
    qed
  qed
qed

text \<open>
  Claim C5.  In an instrumented build, take a lock as its constructor leaves it and
  any history of calls of \<^verbatim>\<open>Acquire\<close>, \<^verbatim>\<open>Try\<close> and \<^verbatim>\<open>Release\<close> by any
  threads.  At every point of the history \<^verbatim>\<open>recursion_used\<close> is true if and only
  if the depth has been 2 at that point or before.  So the flag goes from false to
  true at the first call that brings the depth to 2 and at no other call, and once
  true it is true at every later point, whatever the depth does afterwards.
\<close>

theorem recursion_used_latch:
  assumes "i < length (states False es (Lock_ctor False mem))"
  shows "(recursion_used (states False es (Lock_ctor False mem) ! i) \<longleftrightarrow>
            (\<exists>j\<le>i. recursion_count_shadow (states False es (Lock_ctor False mem) ! j) = 2)) \<and>
         (\<forall>k. i \<le> k \<and> k < length (states False es (Lock_ctor False mem)) \<and>
               recursion_used (states False es (Lock_ctor False mem) ! i) \<longrightarrow>
               recursion_used (states False es (Lock_ctor False mem) ! k))"
proof -
  let ?s0 = "Lock_ctor False mem"
  let ?st = "states False es ?s0"
  have inv: "2 \<le> recursion_count_shadow ?s0 \<longrightarrow> recursion_used ?s0"
    and unused: "\<not> recursion_used ?s0"
    by (simp_all add: Lock_ctor_def)
  have char: "recursion_used (?st ! n) \<longleftrightarrow> (\<exists>j\<le>n. recursion_count_shadow (?st ! j) = 2)"
    if "n < length ?st" for n
    using latch_states [OF inv that] unused by simp
  have "recursion_used (?st ! k)"
    if "i \<le> k" "k < length ?st" "recursion_used (?st ! i)" for k
  proof -
    from that(3) char [OF assms] obtain j where "j \<le> i" "recursion_count_shadow (?st ! j) = 2"
      by blast
    with that(1) have "j \<le> k \<and> recursion_count_shadow (?st ! j) = 2" by simp
    then have "\<exists>j\<le>k. recursion_count_shadow (?st ! j) = 2" by blast
    with char [OF that(2)] show ?thesis by simp
  qed
  with char [OF assms] show ?thesis by blast
qed

theorem recursion_used_latch_witness:
  "\<not> recursion_used
      (states False
         [(0, Op_Acquire), (1, Op_Try), (0, Op_Acquire), (0, Op_Release), (0, Op_Release),
          (1, Op_Acquire_after_wait)]
         (Lock_ctor False
            \<lparr>lock = Owned 5 3, recursion_count_shadow = 7, recursion_used = True,
             acquisition_count = 9, contention_count = 9\<rparr>) ! 2) \<and>
   recursion_used
      (states False
         [(0, Op_Acquire), (1, Op_Try), (0, Op_Acquire), (0, Op_Release), (0, Op_Release),
          (1, Op_Acquire_after_wait)]
         (Lock_ctor False
            \<lparr>lock = Owned 5 3, recursion_count_shadow = 7, recursion_used = True,
             acquisition_count = 9, contention_count = 9\<rparr>) ! 3) \<and>
   recursion_used
      (states False
         [(0, Op_Acquire), (1, Op_Try), (0, Op_Acquire), (0, Op_Release), (0, Op_Release),
          (1, Op_Acquire_after_wait)]
         (Lock_ctor False
            \<lparr>lock = Owned 5 3, recursion_count_shadow = 7, recursion_used = True,
             acquisition_count = 9, contention_count = 9\<rparr>) ! 6)"
proof -
  let ?es = "[(0, Op_Acquire), (1, Op_Try), (0, Op_Acquire), (0, Op_Release), (0, Op_Release),
          (1, Op_Acquire_after_wait)] :: (tid \<times> op) list"
  let ?mem = "\<lparr>lock = Owned 5 3, recursion_count_shadow = 7, recursion_used = True,
             acquisition_count = 9, contention_count = 9\<rparr>"
  let ?st = "states False ?es (Lock_ctor False ?mem)"
  have st: "?st =
     [\<lparr>lock = Unowned, recursion_count_shadow = 0, recursion_used = False,
       acquisition_count = 0, contention_count = 0\<rparr>,
      \<lparr>lock = Owned 0 0, recursion_count_shadow = 1, recursion_used = False,
       acquisition_count = 1, contention_count = 0\<rparr>,
      \<lparr>lock = Owned 0 0, recursion_count_shadow = 1, recursion_used = False,
       acquisition_count = 1, contention_count = 0\<rparr>,
      \<lparr>lock = Owned 0 1, recursion_count_shadow = 2, recursion_used = True,
       acquisition_count = 1, contention_count = 0\<rparr>,
      \<lparr>lock = Owned 0 0, recursion_count_shadow = 1, recursion_used = True,
       acquisition_count = 1, contention_count = 0\<rparr>,
      \<lparr>lock = Unowned, recursion_count_shadow = 0, recursion_used = True,
       acquisition_count = 1, contention_count = 0\<rparr>,
      \<lparr>lock = Owned 1 0, recursion_count_shadow = 1, recursion_used = True,
       acquisition_count = 2, contention_count = 1\<rparr>]"
    by (simp add: Lock_ctor_def Acquire_def Try_def Release_def lock_Lock_def lock_Unlock_def
        LockImpl_Try_def LockImpl_Lock_def LockImpl_Unlock_def DCHECK_def Let_def)
  have len: "2 < length ?st" "3 < length ?st" "6 < length ?st"
    by (simp_all only: st) simp_all
  have depth: "recursion_count_shadow (?st ! 0) = 0" "recursion_count_shadow (?st ! 1) = 1"
    "recursion_count_shadow (?st ! 2) = 1" "recursion_count_shadow (?st ! 3) = 2"
    by (simp_all only: st) simp_all
  have "\<not> (\<exists>j\<le>2. recursion_count_shadow (?st ! j) = 2)"
  proof
    assume "\<exists>j\<le>2. recursion_count_shadow (?st ! j) = 2"
    then obtain j where j: "j \<le> 2" "recursion_count_shadow (?st ! j) = 2" by blast
    from j(1) have "j = 0 \<or> j = 1 \<or> j = 2" by arith
    with j(2) depth show False by auto
  qed
  with recursion_used_latch [OF len(1)] have a: "\<not> recursion_used (?st ! 2)" by blast
  have "3 \<le> (3::nat) \<and> recursion_count_shadow (?st ! 3) = 2" using depth(4) by simp
  then have "\<exists>j\<le>3. recursion_count_shadow (?st ! j) = 2" by blast
  with recursion_used_latch [OF len(2)] have b: "recursion_used (?st ! 3)" by blast
  from recursion_used_latch [OF len(2)]
  have "\<forall>k. 3 \<le> k \<and> k < length ?st \<and> recursion_used (?st ! 3) \<longrightarrow>
          recursion_used (?st ! k)"
    by (rule conjunct2)
  then have "(3::nat) \<le> 6 \<and> 6 < length ?st \<and> recursion_used (?st ! 3) \<longrightarrow>
          recursion_used (?st ! 6)"
    by (rule spec)
  moreover have "(3::nat) \<le> 6" by simp
  ultimately have c: "recursion_used (?st ! 6)" using b len(3) by blast
  from a b c show ?thesis by blast
qed

subsection \<open>The counter acquisition_count\<close>

lemma GetCurrentThreadRecursionCount_debug_later:
  assumes "LockImpl_Lock t (lock s) = None"
    and "LockImpl_Lock t (lock (others s)) = Some m"
  shows "GetCurrentThreadRecursionCount False t others s =
           (if 1 \<le> recursion_count_shadow (others s)
            then Inr (recursion_count_shadow (others s), others s)
            else Inl DCheck_failed)"
proof -
  have "lock_Lock t others s = Inr ((others s)\<lparr>lock := m\<rparr>)"
    using assms by (simp add: lock_Lock_later)
  moreover have "lock_Unlock t ((others s)\<lparr>lock := m\<rparr>) = Inr (others s)"
    using assms(2) by (rule lock_Unlock_after_Lock)
  ultimately show ?thesis
    by (simp add: GetCurrentThreadRecursionCount_def DCHECK_def)
qed

lemma GetCurrentThreadRecursionCount_debug_waits:
  assumes "LockImpl_Lock t (lock s) = None"
    and "LockImpl_Lock t (lock (others s)) = None"
  shows "GetCurrentThreadRecursionCount False t others s = Inl Waits"
  using assms by (simp add: GetCurrentThreadRecursionCount_def lock_Lock_waits)

lemma GetCurrentThreadRecursionCount_debug_state:
  assumes "GetCurrentThreadRecursionCount False t others s = Inr (n, s')"
  shows "s' = (if LockImpl_Lock t (lock s) = None then others s else s)"
proof (cases "LockImpl_Lock t (lock s)")
  case (Some m)
  from GetCurrentThreadRecursionCount_debug_now [OF Some, of others] assms Some
  show ?thesis by (simp split: if_splits)
next
  case None
  show ?thesis
  proof (cases "LockImpl_Lock t (lock (others s))")
    case None': None
    from GetCurrentThreadRecursionCount_debug_waits [where others = others,
        OF None None'] assms
    show ?thesis by simp
  next
    case (Some m)
    from GetCurrentThreadRecursionCount_debug_later [where others = others,
        OF None Some] assms None
    show ?thesis by (simp split: if_splits)
  qed
qed

text \<open>
  Claim C6.  In an instrumented build, a call of \<^verbatim>\<open>Acquire\<close> that returns and a
  call of \<^verbatim>\<open>Try\<close> that succeeds raise the depth by 1, and
  \<^verbatim>\<open>acquisition_count\<close> goes up by exactly 1 when the depth goes from 0 to 1
  and is unchanged when it goes from 1 to 2 or deeper.  A call of \<^verbatim>\<open>Try\<close> that
  fails, \<^verbatim>\<open>Release\<close> and \<^verbatim>\<open>GetCurrentThreadRecursionCount\<close> leave
  \<^verbatim>\<open>acquisition_count\<close> as it was.  For a call that had to wait for the mutex the
  values before the step are those of the state in which the mutex was handed over.
\<close>

theorem acquisition_count_step:
  "(Acquire False t others s = Inr sa \<longrightarrow>
      (let base = (if LockImpl_Lock t (lock s) = None then others s else s)
       in recursion_count_shadow sa = recursion_count_shadow base + 1 \<and>
          acquisition_count sa =
            (if recursion_count_shadow base = 0 then acquisition_count base + 1
             else acquisition_count base))) \<and>
   (Try False t s = (ok, sb) \<longrightarrow>
      (ok \<longrightarrow> recursion_count_shadow sb = recursion_count_shadow s + 1) \<and>
      acquisition_count sb =
        (if ok \<and> recursion_count_shadow s = 0 then acquisition_count s + 1
         else acquisition_count s)) \<and>
   (Release False t s = Inr sc \<longrightarrow> acquisition_count sc = acquisition_count s) \<and>
   (GetCurrentThreadRecursionCount False t others s = Inr (n, sd) \<longrightarrow>
      acquisition_count sd =
        acquisition_count (if LockImpl_Lock t (lock s) = None then others s else s))"
proof (intro conjI impI)
  assume "Acquire False t others s = Inr sa"
  from Acquire_debug_bookkeeping [OF this]
  show "let base = (if LockImpl_Lock t (lock s) = None then others s else s)
        in recursion_count_shadow sa = recursion_count_shadow base + 1 \<and>
           acquisition_count sa =
             (if recursion_count_shadow base = 0 then acquisition_count base + 1
              else acquisition_count base)"
    by (simp add: acquire_bookkeeping_def Let_def)
next
  assume "Try False t s = (ok, sb)" and ok
  with Try_debug_bookkeeping [of t s ok sb]
  show "recursion_count_shadow sb = recursion_count_shadow s + 1"
    by (simp add: acquire_bookkeeping_def)
next
  assume "Try False t s = (ok, sb)"
  from Try_debug_bookkeeping [OF this]
  show "acquisition_count sb =
          (if ok \<and> recursion_count_shadow s = 0 then acquisition_count s + 1
           else acquisition_count s)"
    by (cases ok) (simp_all add: acquire_bookkeeping_def)
next
  assume "Release False t s = Inr sc"
  from Release_fields [OF this] show "acquisition_count sc = acquisition_count s" by simp
next
  assume "GetCurrentThreadRecursionCount False t others s = Inr (n, sd)"
  from GetCurrentThreadRecursionCount_debug_state [OF this]
  show "acquisition_count sd =
          acquisition_count (if LockImpl_Lock t (lock s) = None then others s else s)"
    by simp
qed

theorem acquisition_count_step_witness:
  "(\<exists>sa. Acquire False 0 id
            \<lparr>lock = Unowned, recursion_count_shadow = 0, recursion_used = False,
             acquisition_count = 0, contention_count = 0\<rparr> = Inr sa \<and>
         acquisition_count sa = 1) \<and>
   (\<exists>sa. Acquire False 0 id
            \<lparr>lock = Owned 0 0, recursion_count_shadow = 1, recursion_used = False,
             acquisition_count = 1, contention_count = 0\<rparr> = Inr sa \<and>
         acquisition_count sa = 1) \<and>
   (\<exists>sb. Try False 0
            \<lparr>lock = Unowned, recursion_count_shadow = 0, recursion_used = False,
             acquisition_count = 0, contention_count = 0\<rparr> = (True, sb) \<and>
         acquisition_count sb = 1) \<and>
   (\<exists>sc. Release False 0
            \<lparr>lock = Owned 0 0, recursion_count_shadow = 1, recursion_used = False,
             acquisition_count = 1, contention_count = 0\<rparr> = Inr sc \<and>
         acquisition_count sc = 1) \<and>
   (\<exists>sd. GetCurrentThreadRecursionCount False 0 id
            \<lparr>lock = Owned 0 0, recursion_count_shadow = 1, recursion_used = False,
             acquisition_count = 1, contention_count = 0\<rparr> = Inr (1, sd) \<and>
         acquisition_count sd = 1)"
proof -
  let ?u = "\<lparr>lock = Unowned, recursion_count_shadow = 0, recursion_used = False,
             acquisition_count = 0, contention_count = 0\<rparr>"
  let ?h = "\<lparr>lock = Owned 0 0, recursion_count_shadow = 1, recursion_used = False,
             acquisition_count = 1, contention_count = 0\<rparr>"
  obtain a1 where a1: "Acquire False 0 id ?u = Inr a1"
    by (simp add: Acquire_def LockImpl_Try_def Let_def)
  obtain a2 where a2: "Acquire False 0 id ?h = Inr a2"
    by (simp add: Acquire_def LockImpl_Try_def Let_def)
  obtain b where b: "Try False 0 ?u = (True, b)"
    by (simp add: Try_def LockImpl_Try_def Let_def)
  obtain c where c: "Release False 0 ?h = Inr c"
    by (simp add: Release_def DCHECK_def lock_Unlock_def LockImpl_Unlock_def Let_def)
  obtain d where d: "GetCurrentThreadRecursionCount False 0 id ?h = Inr (1, d)"
    by (simp add: GetCurrentThreadRecursionCount_def DCHECK_def lock_Lock_def lock_Unlock_def
        LockImpl_Lock_def LockImpl_Unlock_def Let_def)
  have "acquisition_count a1 = 1"
    using acquisition_count_step [where t = 0 and others = id and s = ?u and sa = a1] a1
    by (simp add: LockImpl_Lock_def)
  moreover have "acquisition_count a2 = 1"
    using acquisition_count_step [where t = 0 and others = id and s = ?h and sa = a2] a2
    by (simp add: LockImpl_Lock_def)
  moreover have "acquisition_count b = 1"
    using acquisition_count_step [where t = 0 and s = ?u and ok = True and sb = b] b
    by simp
  moreover have "acquisition_count c = 1"
    using acquisition_count_step [where t = 0 and s = ?h and sc = c] c
    by simp
  moreover have "acquisition_count d = 1"
    using acquisition_count_step [where t = 0 and others = id and s = ?h and n = 1 and sd = d] d
    by (simp add: LockImpl_Lock_def)
  ultimately show ?thesis using a1 a2 b c d by blast
qed

end
